theory Spec2Isabelle
  imports Main "HOL-Library.Word" "HOL-Library.Monad_Syntax"
begin

section \<open>Strings of the JavaScript runtime\<close>

text \<open>
  A JavaScript string is a sequence of 16-bit code units; \<open>length\<close>, \<open>slice\<close> and the
  regular expression \<open>\s\<close> all work on code units.
\<close>

type_synonym ustring = "16 word list"

definition SP :: "16 word" where
  "SP = 0x20"

text \<open>A literal of the source, as code units (the literals used here are ASCII).\<close>

definition ustr :: "string \<Rightarrow> ustring" where
  "ustr s = map (\<lambda>c. of_nat (of_char c)) s"

text \<open>
  The class \<open>\s\<close> of a JavaScript regular expression and the characters removed by
  \<open>String.prototype.trim\<close> are the same set: WhiteSpace and LineTerminator of ECMAScript.
\<close>

definition is_ws :: "16 word \<Rightarrow> bool" where
  "is_ws c \<longleftrightarrow>
     c = 0x09 \<or> c = 0x0A \<or> c = 0x0B \<or> c = 0x0C \<or> c = 0x0D \<or> c = 0x20 \<or> c = 0xA0 \<or>
     c = 0x1680 \<or> (0x2000 \<le> c \<and> c \<le> 0x200A) \<or> c = 0x2028 \<or> c = 0x2029 \<or>
     c = 0x202F \<or> c = 0x205F \<or> c = 0x3000 \<or> c = 0xFEFF"

text \<open>\<open>s.replace(/\s+/g, " ")\<close>: every maximal run of white space becomes one space.\<close>

function collapse :: "ustring \<Rightarrow> ustring" where
  "collapse [] = []"
| "collapse (c # cs) =
     (if is_ws c then SP # collapse (dropWhile is_ws cs) else c # collapse cs)"
  by pat_completeness auto
termination
  by (relation "measure length") (auto simp: length_dropWhile_le less_Suc_eq_le)

text \<open>\<open>s.trim()\<close>: white space is removed at both ends.\<close>

definition trim :: "ustring \<Rightarrow> ustring" where
  "trim s = rev (dropWhile is_ws (rev (dropWhile is_ws s)))"

text \<open>
  \<open>function normalize(s?: string) { return (s || "").replace(/\s+/g, " ").trim(); }\<close>
  An absent argument is \<open>None\<close>; \<open>s || ""\<close> is the empty string for \<open>undefined\<close> and
  for the empty string.
\<close>

definition normalize :: "ustring option \<Rightarrow> ustring" where
  "normalize s = trim (collapse (case s of None \<Rightarrow> [] | Some x \<Rightarrow> if x = [] then [] else x))"


section \<open>Data model\<close>

text \<open>
  TypeScript types are erased at run time: the recorder and the replayer handle the same
  objects, read back from the store. One record per object type holds the properties of
  both declarations; an optional property (\<open>title?: string\<close>, \<open>isInitial?: boolean\<close>)
  is an \<open>option\<close>, and so is \<open>selector: string | null\<close>.
\<close>

record ContentSnapshot =
  title :: "ustring option"
  h1 :: "ustring option"
  firstP :: "ustring option"
  metaDescription :: "ustring option"
  bodySnippet :: "ustring option"

record Step =
  selector :: "ustring option"
  url :: ustring
  target_href :: ustring
  content :: ContentSnapshot
  timestamp :: int
  isInitial :: "bool option"

record StepResult = Step +
  liveContent :: ContentSnapshot
  pass :: bool

section \<open>Content extraction\<close>

text \<open>
  What the function evaluated in the page reads from the document: \<open>document.title\<close>,
  the text of the first \<open>h1\<close> (if there is one), the texts of the \<open>p\<close> elements below
  \<open>#mw-content-text\<close> (if that element exists), the texts of all \<open>p\<close> elements, the
  rendered text \<open>document.body.innerText\<close> and the content of the description meta tag
  (if there is one).
\<close>

record page =
  doc_title :: ustring
  first_h1 :: "ustring option"
  root_ps :: "ustring list option"
  all_ps :: "ustring list"
  body_text :: ustring
  meta_description :: "ustring option"

text \<open>
  The loop over the candidates: the first paragraph whose collapsed, trimmed text is longer
  than 40 code units.
\<close>

fun first_long :: "ustring list \<Rightarrow> ustring option" where
  "first_long [] = None"
| "first_long (p # ps) =
     (let txt = trim (collapse p) in if length txt > 40 then Some txt else first_long ps)"

definition extractFirstP :: "page \<Rightarrow> ustring" where
  "extractFirstP pg =
     (let candidates = (case root_ps pg of None \<Rightarrow> [] | Some ps \<Rightarrow> ps) @ all_ps pg in
      case first_long candidates of
        Some txt \<Rightarrow> txt
      | None \<Rightarrow> take 200 (trim (collapse (body_text pg))))"

definition extractContent :: "page \<Rightarrow> ContentSnapshot" where
  "extractContent pg =
     \<lparr> title = Some (doc_title pg),
       h1 = Some (trim (case first_h1 pg of None \<Rightarrow> [] | Some t \<Rightarrow> t)),
       firstP = Some (extractFirstP pg),
       metaDescription = Some (case meta_description pg of None \<Rightarrow> [] | Some m \<Rightarrow> m),
       bodySnippet = None \<rparr>"

section \<open>Step store\<close>

text \<open>
  The store is a file of JSON text. Printing and parsing the text is the runtime's
  \<open>JSON.stringify\<close> and \<open>JSON.parse\<close>; the model keeps, for a file, the JSON value its
  text denotes, or \<open>Garbled\<close> for text that \<open>JSON.parse\<close> rejects. An object is the
  list of its properties in insertion order, with distinct names. Numbers are integers,
  as the time stamps are.
\<close>

datatype json =
    JNull
  | JBool bool
  | JNum int
  | JStr ustring
  | JArr "json list"
  | JObj "(string \<times> json) list"

datatype stored = Text json | Garbled

type_synonym path = string

type_synonym filesystem = "path \<rightharpoonup> stored"

text \<open>
  Each program declares its own \<open>OUT_DIR\<close> and \<open>OUT_FILE\<close>, joined to the working
  directory \<open>process.cwd()\<close>: the recorder's come first, then those of
  \<open>automated/replay.ts\<close>.
\<close>

definition recorder_OUT_DIR :: "path \<Rightarrow> path" where
  "recorder_OUT_DIR cwd = cwd @ ''/baseline''"

definition recorder_OUT_FILE :: "path \<Rightarrow> path" where
  "recorder_OUT_FILE cwd = recorder_OUT_DIR cwd @ ''/steps.json''"

definition OUT_DIR :: "path \<Rightarrow> path" where
  "OUT_DIR cwd = cwd @ ''/baseline''"

definition OUT_FILE :: "path \<Rightarrow> path" where
  "OUT_FILE cwd = OUT_DIR cwd @ ''/steps.json''"

text \<open>\<open>JSON.stringify\<close> leaves out a property whose value is \<open>undefined\<close>.\<close>

fun str_field :: "string \<Rightarrow> ustring option \<Rightarrow> (string \<times> json) list" where
  "str_field k None = []"
| "str_field k (Some v) = [(k, JStr v)]"

definition content_json :: "ContentSnapshot \<Rightarrow> json" where
  "content_json c =
     JObj (str_field ''title'' (title c) @ str_field ''h1'' (h1 c) @
           str_field ''firstP'' (firstP c) @
           str_field ''metaDescription'' (metaDescription c) @
           str_field ''bodySnippet'' (bodySnippet c))"

definition step_json :: "Step \<Rightarrow> json" where
  "step_json s =
     JObj ([(''selector'', case selector s of None \<Rightarrow> JNull | Some x \<Rightarrow> JStr x),
            (''url'', JStr (url s)),
            (''target_href'', JStr (target_href s)),
            (''content'', content_json (content s)),
            (''timestamp'', JNum (timestamp s))] @
           (case isInitial s of None \<Rightarrow> [] | Some b \<Rightarrow> [(''isInitial'', JBool b)]))"

definition stringify :: "Step list \<Rightarrow> json" where
  "stringify steps = JArr (map step_json steps)"

text \<open>
  \<open>function saveSteps(steps) { ensureOutDir(); fs.writeFileSync(OUT_FILE, JSON.stringify(steps, null, 2), "utf-8"); ... }\<close>
  Directories are not modelled: \<open>ensureOutDir\<close> makes the directory before every write.
\<close>

definition saveSteps :: "path \<Rightarrow> Step list \<Rightarrow> filesystem \<Rightarrow> filesystem" where
  "saveSteps cwd steps fs = fs(recorder_OUT_FILE cwd \<mapsto> Text (stringify steps))"

text \<open>
  The replayer casts the parsed value (\<open>as Step[]\<close>) and reads its properties at the
  declared types. The readers below say what it is for a JSON value to have these types:
  an optional property is absent or a string, \<open>selector\<close> is \<open>null\<close> or a string.
\<close>

definition opt_str :: "(string \<times> json) list \<Rightarrow> string \<Rightarrow> ustring option option" where
  "opt_str kvs k =
     (case map_of kvs k of
        None \<Rightarrow> Some None
      | Some (JStr v) \<Rightarrow> Some (Some v)
      | Some _ \<Rightarrow> None)"

definition req_str :: "(string \<times> json) list \<Rightarrow> string \<Rightarrow> ustring option" where
  "req_str kvs k = (case map_of kvs k of Some (JStr v) \<Rightarrow> Some v | _ \<Rightarrow> None)"

fun content_of_json :: "json \<Rightarrow> ContentSnapshot option" where
  "content_of_json (JObj kvs) =
     do {
       t \<leftarrow> opt_str kvs ''title'';
       h \<leftarrow> opt_str kvs ''h1'';
       f \<leftarrow> opt_str kvs ''firstP'';
       m \<leftarrow> opt_str kvs ''metaDescription'';
       b \<leftarrow> opt_str kvs ''bodySnippet'';
       Some \<lparr> title = t, h1 = h, firstP = f, metaDescription = m, bodySnippet = b \<rparr>
     }"
| "content_of_json _ = None"

fun step_of_json :: "json \<Rightarrow> Step option" where
  "step_of_json (JObj kvs) =
     do {
       sel \<leftarrow> (case map_of kvs ''selector'' of
                 Some JNull \<Rightarrow> Some None
               | Some (JStr x) \<Rightarrow> Some (Some x)
               | _ \<Rightarrow> None);
       u \<leftarrow> req_str kvs ''url'';
       t \<leftarrow> req_str kvs ''target_href'';
       c \<leftarrow> (case map_of kvs ''content'' of Some j \<Rightarrow> content_of_json j | None \<Rightarrow> None);
       ts \<leftarrow> (case map_of kvs ''timestamp'' of Some (JNum n) \<Rightarrow> Some n | _ \<Rightarrow> None);
       ini \<leftarrow> (case map_of kvs ''isInitial'' of
                 None \<Rightarrow> Some None
               | Some (JBool b) \<Rightarrow> Some (Some b)
               | Some _ \<Rightarrow> None);
       Some \<lparr> selector = sel, url = u, target_href = t, content = c, timestamp = ts,
              isInitial = ini \<rparr>
     }"
| "step_of_json _ = None"

fun all_steps :: "json list \<Rightarrow> Step list option" where
  "all_steps [] = Some []"
| "all_steps (j # js) =
     do { s \<leftarrow> step_of_json j; ss \<leftarrow> all_steps js; Some (s # ss) }"

fun steps_of_json :: "json \<Rightarrow> Step list option" where
  "steps_of_json (JArr js) = all_steps js"
| "steps_of_json _ = None"

text \<open>
  \<open>loadSteps\<close> throws when the file does not exist; \<open>JSON.parse\<close> throws on text that
  is not JSON. \<open>NotSteps\<close> is a parsed value that is not of type \<open>Step[]\<close>: the cast does
  not check it, and what the replayer does with such a value is outside the typed program.
\<close>

datatype load_error = NotFound | SyntaxError | NotSteps

definition loadSteps :: "path \<Rightarrow> filesystem \<Rightarrow> load_error + Step list" where
  "loadSteps cwd fs =
     (case fs (OUT_FILE cwd) of
        None \<Rightarrow> Inl NotFound
      | Some Garbled \<Rightarrow> Inl SyntaxError
      | Some (Text j) \<Rightarrow>
          (case steps_of_json j of None \<Rightarrow> Inl NotSteps | Some steps \<Rightarrow> Inr steps))"

section \<open>Replayer\<close>

text \<open>
  What a run does to the world is a list of events, in order. The alert is kept as the
  subject and the data handed to \<open>buildMinimalFailureEmail\<close>, the report as the results
  it renders; the HTML text of either is not modelled. \<open>LogCrash\<close> is the
  \<open>console.error("Replay crashed:", err)\<close> of the handler, \<open>Exit\<close> a call of
  \<open>process.exit\<close>, \<open>Uncaught\<close> an exception that leaves \<open>main\<close>.
\<close>

datatype subject = VerificationFailed | ReplayCrashed

record alert =
  step :: int
  alert_url :: ustring
  recordedFirstP :: ustring
  liveFirstP :: ustring
  reason :: "ustring option"

datatype event =
    Launch bool
  | Goto ustring
  | Mail subject alert
  | LogCrash ustring
  | Close
  | WriteReport "StepResult list"
  | Exit nat
  | Uncaught ustring

text \<open>
  The calls awaited inside the \<open>try\<close> block can throw, and the handler's own alert can.
  An exception is kept as its message. For iteration \<open>i\<close> (from 0), \<open>visit\<close> is the
  outcome of \<open>page.goto\<close>, the settling wait and \<open>page.evaluate\<close> together: the message
  thrown, or the document that was read; \<open>mail_err\<close> is what \<open>sendFailureEmail\<close> throws
  in that iteration, if it is called and throws; \<open>pause_err\<close> is what the closing
  \<open>waitForTimeout(500)\<close> throws, if it throws. \<open>crash_mail_err\<close> is what the
  handler's \<open>sendFailureEmail\<close> throws, if it is called and throws. Launching and closing
  the browser and writing the report are taken to succeed.
\<close>

record world =
  visit :: "nat \<Rightarrow> ustring + page"
  mail_err :: "nat \<Rightarrow> ustring option"
  pause_err :: "nat \<Rightarrow> ustring option"
  crash_mail_err :: "ustring option"

record rstate =
  results :: "StepResult list"
  hasMismatch :: bool
  failureEmailSent :: bool
  events :: "event list"

text \<open>\<open>x || "<empty>"\<close> on a string.\<close>

definition or_empty :: "ustring \<Rightarrow> ustring" where
  "or_empty x = (if x = [] then ustr ''<empty>'' else x)"

text \<open>
  Lines 140 to 153: the comparison and the result pushed, \<open>{...step, liveContent: live, pass}\<close>.
\<close>

definition verdict :: "Step \<Rightarrow> ContentSnapshot \<Rightarrow> StepResult" where
  "verdict st live =
     (let recordedFP = normalize (firstP (content st));
          liveFP = normalize (firstP live);
          passed = (recordedFP = liveFP)
      in \<lparr> selector = selector st, url = url st, target_href = target_href st,
            content = content st, timestamp = timestamp st, isInitial = isInitial st,
            liveContent = live, pass = passed \<rparr>)"

text \<open>
  One iteration of the \<open>for\<close> loop, for the step at index \<open>i\<close>. The first component is
  the exception that leaves the iteration, if any.
\<close>

definition replay_step :: "world \<Rightarrow> nat \<Rightarrow> Step \<Rightarrow> rstate \<Rightarrow> ustring option \<times> rstate" where
  "replay_step w i st s =
     (let s1 = s\<lparr>events := events s @ [Goto (target_href st)]\<rparr> in
      case visit w i of
        Inl err \<Rightarrow> (Some err, s1)
      | Inr pg \<Rightarrow>
          (let live = extractContent pg;
               recordedFP = normalize (firstP (content st));
               liveFP = normalize (firstP live);
               r = verdict st live;
               s2 = s1\<lparr>hasMismatch := hasMismatch s1 \<or> \<not> pass r,
                        results := results s1 @ [r]\<rparr>;
               s3 = (if \<not> pass r \<and> \<not> failureEmailSent s2
                     then s2\<lparr>failureEmailSent := True,
                              events := events s2 @
                                [Mail VerificationFailed
                                   \<lparr> step = int i + 1, alert_url = target_href st,
                                     recordedFirstP = or_empty recordedFP,
                                     liveFirstP = or_empty liveFP, reason = None \<rparr>]\<rparr>
                     else s2)
           in if \<not> pass r \<and> \<not> failureEmailSent s2 \<and> mail_err w i \<noteq> None
              then (mail_err w i, s3)
              else (pause_err w i, s3)))"

fun replay_loop :: "world \<Rightarrow> Step list \<Rightarrow> nat \<Rightarrow> rstate \<Rightarrow> ustring option \<times> rstate" where
  "replay_loop w [] i s = (None, s)"
| "replay_loop w (st # rest) i s =
     (case replay_step w i st s of
        (Some err, s') \<Rightarrow> (Some err, s')
      | (None, s') \<Rightarrow> replay_loop w rest (Suc i) s')"

text \<open>The \<open>finally\<close> block and the report that follows it.\<close>

definition close_and_report :: "rstate \<Rightarrow> rstate" where
  "close_and_report s = s\<lparr>events := events s @ [Close, WriteReport (results s)]\<rparr>"

text \<open>
  Lines 111 to 227 of \<open>main\<close>: launch, the loop under \<open>try\<close>, the \<open>catch\<close> handler,
  \<open>finally\<close>, the report. When the handler's own alert throws, \<open>finally\<close> still closes
  the browser and the exception leaves \<open>main\<close> before the report.
\<close>

definition replay :: "world \<Rightarrow> bool \<Rightarrow> Step list \<Rightarrow> rstate" where
  "replay w headless steps =
     (let s0 = \<lparr> results = [], hasMismatch = False, failureEmailSent = False,
                 events = [Launch headless] \<rparr> in
      case replay_loop w steps 0 s0 of
        (None, s1) \<Rightarrow> close_and_report s1
      | (Some err, s1) \<Rightarrow>
          (let s2 = s1\<lparr>events := events s1 @ [LogCrash err]\<rparr> in
           if \<not> failureEmailSent s2 then
             (let s3 = s2\<lparr>events := events s2 @
                          [Mail ReplayCrashed
                             \<lparr> step = - 1, alert_url = ustr ''N/A'', recordedFirstP = [],
                               liveFirstP = [], reason = Some err \<rparr>]\<rparr> in
              case crash_mail_err w of
                Some err2 \<Rightarrow> s3\<lparr>events := events s3 @ [Close, Uncaught err2]\<rparr>
              | None \<Rightarrow> close_and_report s3)
           else close_and_report s2))"

text \<open>
  The environment variables. \<open>!x\<close> holds of an unset variable and of the empty string.
\<close>

type_synonym environ = "string \<rightharpoonup> ustring"

definition unset :: "ustring option \<Rightarrow> bool" where
  "unset v \<longleftrightarrow> v = None \<or> v = Some []"

definition stopped :: "nat \<Rightarrow> rstate" where
  "stopped code =
     \<lparr> results = [], hasMismatch = False, failureEmailSent = False, events = [Exit code] \<rparr>"

text \<open>
  \<open>main\<close> of the replayer. The result is \<open>None\<close> for a store whose value is not of type
  \<open>Step[]\<close> (see \<open>loadSteps\<close>).
\<close>

definition main :: "path \<Rightarrow> filesystem \<Rightarrow> environ \<Rightarrow> world \<Rightarrow> rstate option" where
  "main cwd fs env w =
     (case loadSteps cwd fs of
        Inl NotSteps \<Rightarrow> None
      | Inl _ \<Rightarrow> Some (stopped 1)
      | Inr steps \<Rightarrow>
          if steps = [] then Some (stopped 0)
          else
            (let HEADLESS = (env ''HEADLESS'' \<noteq> Some (ustr ''false'')) in
             if unset (env ''EMAIL_HOST'') \<or> unset (env ''EMAIL_PORT'') \<or>
                unset (env ''EMAIL_USER'') \<or> unset (env ''EMAIL_PASS'') \<or>
                unset (env ''ALERT_TO'')
             then Some (stopped 1)
             else Some (replay w HEADLESS steps)))"

section \<open>Recorder\<close>

text \<open>
  The clicked element's nearest anchor, as the listener reads it: \<open>a.id\<close> (empty when the
  anchor has no id), \<open>a.getAttribute("href")\<close> (\<open>null\<close> when there is no such attribute)
  and \<open>a.href\<close>, the resolved URL (empty when the anchor has no href).
\<close>

record anchor =
  id' :: ustring
  href_attr :: "ustring option"
  href :: ustring

record payload =
  click_href :: ustring
  click_selector :: ustring

text \<open>
  The capturing click listener. The argument is \<open>e.target.closest("a")\<close>, \<open>None\<close> when
  the click is not inside an anchor. The result is the payload handed to \<open>recordClick\<close>
  (after \<open>preventDefault\<close>), or \<open>None\<close> when the listener returns before that.
\<close>

definition click_listener :: "anchor option \<Rightarrow> payload option" where
  "click_listener target =
     (case target of
        None \<Rightarrow> None
      | Some a \<Rightarrow>
          if href a = [] then None
          else
            (let selector =
                   (if id' a \<noteq> [] then ustr ''a#'' @ id' a
                    else case href_attr a of
                           None \<Rightarrow> []
                         | Some h \<Rightarrow>
                             if h = [] then []
                             else ustr ''a[href='' @ [0x22] @ h @ [0x22] @ ustr '']'')
             in if selector = [] then None
                else Some \<lparr> click_href = href a, click_selector = selector \<rparr>))"

text \<open>
  The recorder's state: the steps in memory, the shutdown latch, the file system, and the
  effects so far (\<open>Saved\<close> for each \<open>saveSteps\<close>, \<open>BrowserClosed\<close>, \<open>Exited\<close> for
  \<open>process.exit\<close>).
\<close>

datatype rec_event = Saved "Step list" | BrowserClosed | Exited nat

record recorder =
  steps :: "Step list"
  shuttingDown :: bool
  disk :: filesystem
  log :: "rec_event list"

text \<open>
  What the driver gives the binding for one click: \<open>page.url()\<close> before the navigation,
  \<open>new URL(href, base).href\<close> (\<open>None\<close> when the constructor throws), the outcome of
  \<open>page.goto\<close> (the message thrown, or the final URL and the document), and \<open>Date.now()\<close>.
\<close>

record driver =
  page_url :: ustring
  resolve :: "ustring \<Rightarrow> ustring \<Rightarrow> ustring option"
  goto :: "ustring \<Rightarrow> ustring + ustring \<times> page"
  now :: int

text \<open>The binding \<open>recordClick\<close>. An exception in the binding leaves the state as it is.\<close>

definition recordClick :: "path \<Rightarrow> driver \<Rightarrow> payload \<Rightarrow> recorder \<Rightarrow> recorder" where
  "recordClick cwd d p r =
     (let fromUrl = page_url d in
      case resolve d (click_href p) fromUrl of
        None \<Rightarrow> r
      | Some rawTarget \<Rightarrow>
          if click_selector p = [] \<or> click_selector p = ustr ''a'' then r
          else
            (case goto d rawTarget of
               Inl err \<Rightarrow> r
             | Inr (finalUrl, pg) \<Rightarrow>
                 (let st = \<lparr> selector = Some (click_selector p), url = fromUrl,
                              target_href = finalUrl, content = extractContent pg,
                              timestamp = now d, isInitial = None \<rparr>;
                      steps' = steps r @ [st]
                  in r\<lparr>steps := steps',
                       disk := saveSteps cwd steps' (disk r),
                       log := log r @ [Saved steps']\<rparr>)))"

text \<open>A click in the page: the listener, then the binding when the listener calls it.\<close>

definition on_click :: "path \<Rightarrow> driver \<Rightarrow> anchor option \<Rightarrow> recorder \<Rightarrow> recorder" where
  "on_click cwd d target r =
     (case click_listener target of None \<Rightarrow> r | Some p \<Rightarrow> recordClick cwd d p r)"

text \<open>
  \<open>gracefulExit\<close>. The latch is set before the first \<open>await\<close>, so a trigger that fires
  while \<open>browser.close()\<close> is pending finds it set; a call is modelled as running to its
  end.
\<close>

definition gracefulExit :: "path \<Rightarrow> recorder \<Rightarrow> recorder" where
  "gracefulExit cwd r =
     (if shuttingDown r then r
      else r\<lparr>shuttingDown := True,
             disk := saveSteps cwd (steps r) (disk r),
             log := log r @ [Saved (steps r), BrowserClosed, Exited 0]\<rparr>)"

text \<open>The five sources registered for \<open>gracefulExit\<close>.\<close>

datatype trigger = PageClose | ContextClose | Disconnected | SIGINT | SIGTERM

fun on_trigger :: "path \<Rightarrow> trigger \<Rightarrow> recorder \<Rightarrow> recorder" where
  "on_trigger cwd t r = gracefulExit cwd r"

definition shutdown :: "path \<Rightarrow> trigger list \<Rightarrow> recorder \<Rightarrow> recorder" where
  "shutdown cwd ts r = fold (on_trigger cwd) ts r"

section \<open>Auxiliary notions\<close>

text \<open>
  A string is tidy when its only white space is single spaces: no white-space character
  other than the space, and no two white-space characters in a row.
\<close>

fun tidy :: "ustring \<Rightarrow> bool" where
  "tidy [] = True"
| "tidy [c] = (is_ws c \<longrightarrow> c = SP)"
| "tidy (c # d # cs) = ((is_ws c \<longrightarrow> c = SP \<and> \<not> is_ws d) \<and> tidy (d # cs))"

text \<open>The alerts among the events of a run.\<close>

fun is_mail :: "event \<Rightarrow> bool" where
  "is_mail (Mail s a) = True"
| "is_mail _ = False"

definition alerts :: "event list \<Rightarrow> event list" where
  "alerts es = filter is_mail es"

text \<open>
  Sample data: a document without paragraphs whose rendered text is \<open>t\<close>, and a recorded
  step for the address \<open>u\<close> whose first paragraph is \<open>t\<close>.
\<close>

definition text_page :: "ustring \<Rightarrow> page" where
  "text_page t =
     \<lparr> doc_title = [], first_h1 = None, root_ps = None, all_ps = [], body_text = t,
       meta_description = None \<rparr>"

definition recorded :: "ustring \<Rightarrow> ustring option \<Rightarrow> Step" where
  "recorded u t =
     \<lparr> selector = None, url = u, target_href = u,
       content = \<lparr> title = Some [], h1 = Some [], firstP = t, metaDescription = Some [],
                   bodySnippet = None \<rparr>,
       timestamp = 0, isInitial = None \<rparr>"

definition fresh_recorder :: recorder where
  "fresh_recorder = \<lparr> steps = [], shuttingDown = False, disk = Map.empty, log = [] \<rparr>"

text \<open>
  The alert of the first mismatch, read off the result \<open>r\<close> pushed in iteration \<open>i\<close>,
  and the alert of the crash handler.
\<close>

definition mismatch_alert :: "nat \<Rightarrow> StepResult \<Rightarrow> event" where
  "mismatch_alert i r =
     Mail VerificationFailed
       \<lparr> step = int i + 1, alert_url = target_href r,
         recordedFirstP = or_empty (normalize (firstP (content r))),
         liveFirstP = or_empty (normalize (firstP (liveContent r))), reason = None \<rparr>"

definition crash_alert :: "ustring \<Rightarrow> event" where
  "crash_alert err =
     Mail ReplayCrashed
       \<lparr> step = - 1, alert_url = ustr ''N/A'', recordedFirstP = [], liveFirstP = [],
         reason = Some err \<rparr>"

text \<open>The addresses visited in a run, in order.\<close>

fun visited :: "event list \<Rightarrow> ustring list" where
  "visited [] = []"
| "visited (Goto u # es) = u # visited es"
| "visited (e # es) = visited es"

text \<open>
  The result of step \<open>j\<close> passes, as far as its document is read. The alert goes out in
  iteration \<open>k\<close> when the result of step \<open>k\<close> is the first that fails. What leaves
  iteration \<open>k\<close> after its result is in: what the alert throws, if it goes out and
  throws, else what the closing wait throws. Iteration \<open>j\<close> runs through: its document
  is read and nothing is thrown after its result is in.
\<close>

definition live_pass :: "world \<Rightarrow> Step list \<Rightarrow> nat \<Rightarrow> bool" where
  "live_pass w all j =
     (case visit w j of
        Inl e \<Rightarrow> True
      | Inr pg \<Rightarrow> pass (verdict (all ! j) (extractContent pg)))"

definition fires :: "world \<Rightarrow> Step list \<Rightarrow> nat \<Rightarrow> bool" where
  "fires w all k \<longleftrightarrow> \<not> live_pass w all k \<and> (\<forall>j<k. live_pass w all j)"

definition thrown_in :: "world \<Rightarrow> Step list \<Rightarrow> nat \<Rightarrow> ustring option" where
  "thrown_in w all k =
     (if fires w all k \<and> mail_err w k \<noteq> None then mail_err w k else pause_err w k)"

definition runs_through :: "world \<Rightarrow> Step list \<Rightarrow> nat \<Rightarrow> bool" where
  "runs_through w all j \<longleftrightarrow> (\<exists>pg. visit w j = Inr pg) \<and> thrown_in w all j = None"

text \<open>
  Sample worlds and data: in \<open>steady t\<close> every visit reads the document \<open>text_page t\<close>
  and nothing throws; in \<open>mail_down t\<close> every alert throws; in \<open>wait_fails t\<close> every
  closing wait throws; in \<open>timeout_at k t\<close> the visit of iteration \<open>k\<close> throws; two
  recorded steps with first paragraph \<open>A\<close>; a step and a document that differ from them
  in everything but the first paragraph; and a driver for the recorder that resolves and
  loads every address.
\<close>

definition steady :: "ustring \<Rightarrow> world" where
  "steady t =
     \<lparr> visit = (\<lambda>i. Inr (text_page t)), mail_err = (\<lambda>i. None), pause_err = (\<lambda>i. None),
       crash_mail_err = None \<rparr>"

definition mail_down :: "ustring \<Rightarrow> world" where
  "mail_down t =
     (steady t)\<lparr>mail_err := (\<lambda>i. Some (ustr ''smtp'')),
               crash_mail_err := Some (ustr ''smtp'')\<rparr>"

definition timeout_at :: "nat \<Rightarrow> ustring \<Rightarrow> world" where
  "timeout_at k t =
     (steady t)\<lparr>visit := (\<lambda>i. if i = k then Inl (ustr ''timeout'') else Inr (text_page t))\<rparr>"

definition two_steps :: "Step list" where
  "two_steps =
     [recorded (ustr ''u1'') (Some (ustr ''A'')), recorded (ustr ''u2'') (Some (ustr ''A''))]"

definition wait_fails :: "ustring \<Rightarrow> world" where
  "wait_fails t = (steady t)\<lparr>pause_err := (\<lambda>i. Some (ustr ''closed''))\<rparr>"

definition other_step :: Step where
  "other_step =
     \<lparr> selector = Some (ustr ''a#x''), url = ustr ''v'', target_href = ustr ''v'',
       content = \<lparr> title = Some (ustr ''T''), h1 = Some (ustr ''H''),
                   firstP = Some (ustr ''A''), metaDescription = None,
                   bodySnippet = None \<rparr>,
       timestamp = 7, isInitial = Some False \<rparr>"

definition titled_page :: "ustring \<Rightarrow> page" where
  "titled_page t =
     \<lparr> doc_title = ustr ''T'', first_h1 = Some (ustr ''H''), root_ps = None, all_ps = [],
       body_text = t, meta_description = Some (ustr ''M'') \<rparr>"

definition plain_driver :: driver where
  "plain_driver =
     \<lparr> page_url = ustr ''u'', resolve = (\<lambda>h b. Some h),
       goto = (\<lambda>u. Inr (u, text_page [])), now = 0 \<rparr>"

text \<open>The state in which the loop starts: nothing recorded, the browser launched.\<close>

definition boot :: "bool \<Rightarrow> rstate" where
  "boot headless =
     \<lparr> results = [], hasMismatch = False, failureEmailSent = False,
       events = [Launch headless] \<rparr>"

text \<open>
  What holds of the state when \<open>n\<close> results are in: result \<open>j\<close> is the verdict on step
  \<open>j\<close> and the document read in iteration \<open>j\<close>; the latch is set exactly when some result
  fails; no alert has gone out while it is unset; and the alert of the first failing
  result is the only one.
\<close>

definition settled :: "world \<Rightarrow> Step list \<Rightarrow> nat \<Rightarrow> rstate \<Rightarrow> bool" where
  "settled w all n s \<longleftrightarrow>
     length (results s) = n \<and> n \<le> length all \<and>
     (\<forall>j<n. \<exists>pg. visit w j = Inr pg \<and> results s ! j = verdict (all ! j) (extractContent pg)) \<and>
     (failureEmailSent s \<longleftrightarrow> (\<exists>j<n. \<not> pass (results s ! j))) \<and>
     (\<not> failureEmailSent s \<longrightarrow> alerts (events s) = []) \<and>
     (\<forall>j<n. \<not> pass (results s ! j) \<and> (\<forall>k<j. pass (results s ! k)) \<longrightarrow>
        alerts (events s) = [mismatch_alert j (results s ! j)])"

text \<open>
  Where the loop was left with \<open>n\<close> results in: at its end, by the visit of iteration
  \<open>n\<close> throwing, or by the alert or the closing wait of iteration \<open>n - 1\<close> throwing.
\<close>

definition thrown_at :: "world \<Rightarrow> Step list \<Rightarrow> nat \<Rightarrow> ustring option \<Rightarrow> bool" where
  "thrown_at w all n c \<longleftrightarrow>
     (case c of
        None \<Rightarrow> n = length all
      | Some e \<Rightarrow>
          n < length all \<and> visit w n = Inl e \<or>
          0 < n \<and> (mail_err w (n - 1) = Some e \<or> pause_err w (n - 1) = Some e))"

text \<open>The events after the loop: handler, \<open>finally\<close>, report.\<close>

definition tail_events :: "world \<Rightarrow> ustring option \<Rightarrow> rstate \<Rightarrow> event list" where
  "tail_events w c s =
     (case c of
        None \<Rightarrow> [Close, WriteReport (results s)]
      | Some e \<Rightarrow>
          LogCrash e #
          (if failureEmailSent s then [Close, WriteReport (results s)]
           else crash_alert e #
             (case crash_mail_err w of
                None \<Rightarrow> [Close, WriteReport (results s)]
              | Some e2 \<Rightarrow> [Close, Uncaught e2])))"

text \<open>
  How the loop was left with \<open>n\<close> results in, and which addresses were visited by then:
  at its end; by the visit of iteration \<open>n\<close> throwing; or by the alert or the closing
  wait of iteration \<open>n - 1\<close> throwing, the iterations before having run through.
\<close>

definition halted :: "world \<Rightarrow> Step list \<Rightarrow> nat \<Rightarrow> ustring option \<Rightarrow> rstate \<Rightarrow> bool" where
  "halted w all n c s \<longleftrightarrow>
     (c = None \<and> n = length all \<and> (\<forall>j<n. thrown_in w all j = None) \<and>
        visited (events s) = map target_href all) \<or>
     (\<exists>e. c = Some e \<and> n < length all \<and> visit w n = Inl e \<and>
        (\<forall>j<n. thrown_in w all j = None) \<and>
        visited (events s) = map target_href (take (Suc n) all)) \<or>
     (\<exists>e m. c = Some e \<and> n = Suc m \<and> thrown_in w all m = Some e \<and>
        (\<forall>j<m. thrown_in w all j = None) \<and>
        visited (events s) = map target_href (take n all))"

section \<open>Properties\<close>

subsection \<open>Collapsing and trimming\<close>

lemma is_ws_SP: "is_ws SP"
  by (simp add: is_ws_def SP_def)

lemma dropWhile_ws_cases:
  "dropWhile is_ws cs = [] \<or> (\<exists>d ds. dropWhile is_ws cs = d # ds \<and> \<not> is_ws d)"
  by (metis hd_dropWhile list.exhaust list.sel(1))

lemma tidy_collapse: "tidy (collapse s)"
proof (induction s rule: collapse.induct)
  case 1
  show ?case by simp
next
  case (2 c cs)
  show ?case
  proof (cases "is_ws c")
    case True
    from dropWhile_ws_cases [of cs] show ?thesis
    proof
      assume "dropWhile is_ws cs = []"
      with True show ?thesis by (simp add: is_ws_SP del: dropWhile_eq_Nil_conv)
    next
      assume "\<exists>d ds. dropWhile is_ws cs = d # ds \<and> \<not> is_ws d"
      then obtain d ds where d: "dropWhile is_ws cs = d # ds" "\<not> is_ws d" by blast
      with True 2 show ?thesis by (simp add: is_ws_SP)
    qed
  next
    case False
    with 2 show ?thesis by (cases "collapse cs") auto
  qed
qed

lemma collapse_tidy: "tidy s \<Longrightarrow> collapse s = s"
  by (induction s rule: tidy.induct) (auto simp: is_ws_SP)

lemma tidy_append_left: "tidy (xs @ ys) \<Longrightarrow> tidy xs"
proof (induction xs rule: tidy.induct)
  case (2 c)
  then show ?case by (cases ys) auto
qed auto

lemma tidy_append_right: "tidy (xs @ ys) \<Longrightarrow> tidy ys"
proof (induction xs rule: tidy.induct)
  case (2 c)
  then show ?case by (cases ys) auto
qed auto

lemma trim_infix: "\<exists>a b. s = a @ trim s @ b"
proof -
  have 1: "s = takeWhile is_ws s @ dropWhile is_ws s" by simp
  have "rev (dropWhile is_ws s) =
        takeWhile is_ws (rev (dropWhile is_ws s)) @ dropWhile is_ws (rev (dropWhile is_ws s))"
    by simp
  then have "dropWhile is_ws s = trim s @ rev (takeWhile is_ws (rev (dropWhile is_ws s)))"
    unfolding trim_def by (metis rev_append rev_rev_ident)
  with 1 show ?thesis by metis
qed

lemma tidy_trim: "tidy s \<Longrightarrow> tidy (trim s)"
  by (metis trim_infix tidy_append_left tidy_append_right)

lemma dropWhile_id: "xs = [] \<or> \<not> P (hd xs) \<Longrightarrow> dropWhile P xs = xs"
  by (cases xs) auto

lemma trim_last: "trim s = [] \<or> \<not> is_ws (last (trim s))"
  by (metis hd_dropWhile hd_rev rev.simps(1) rev_rev_ident trim_def)

lemma trim_hd: "trim s = [] \<or> \<not> is_ws (hd (trim s))"
proof -
  define y where "y = dropWhile is_ws s"
  define z where "z = dropWhile is_ws (rev y)"
  have t: "trim s = rev z" by (simp add: trim_def y_def z_def)
  show ?thesis
  proof (cases "z = []")
    case True
    with t show ?thesis by simp
  next
    case False
    have "rev y = takeWhile is_ws (rev y) @ z" by (simp add: z_def)
    with False have "last (rev y) = last z" by (metis last_appendR)
    moreover from False have "y \<noteq> []" by (auto simp: z_def)
    ultimately have "last z = hd y" by (simp add: last_rev)
    moreover from \<open>y \<noteq> []\<close> have "\<not> is_ws (hd y)" unfolding y_def by (rule hd_dropWhile)
    ultimately show ?thesis using t False by (simp add: hd_rev)
  qed
qed

lemma trim_trim: "trim (trim s) = trim s"
proof -
  have 1: "dropWhile is_ws (trim s) = trim s"
    using trim_hd [of s] by (rule dropWhile_id)
  have "rev (trim s) = [] \<or> \<not> is_ws (hd (rev (trim s)))"
    using trim_last [of s] by (auto simp: hd_rev)
  then have 2: "dropWhile is_ws (rev (trim s)) = rev (trim s)"
    by (rule dropWhile_id)
  show ?thesis
    by (simp add: trim_def [of "trim s"] 1 2)
qed

lemma normalize_idem: "normalize (Some (normalize s)) = normalize s"
proof -
  define x where "x = (case s of None \<Rightarrow> [] | Some x \<Rightarrow> if x = [] then [] else x)"
  have n: "normalize s = trim (collapse x)" by (simp add: normalize_def x_def)
  have "tidy (trim (collapse x))" by (rule tidy_trim) (rule tidy_collapse)
  then have "collapse (trim (collapse x)) = trim (collapse x)" by (rule collapse_tidy)
  then have "normalize (Some (trim (collapse x))) = trim (collapse x)"
    by (simp add: normalize_def trim_trim)
  with n show ?thesis by simp
qed

lemma normalize_None: "normalize None = []"
  by (simp add: normalize_def trim_def)

lemma pass_verdict:
  "pass (verdict st live) \<longleftrightarrow> normalize (firstP (content st)) = normalize (firstP live)"
  by (simp add: verdict_def)

text \<open>
  C10. \<open>normalize\<close> is a total function on optional strings (its definition above
  terminates on every input); on an absent string it is the empty string; it is
  idempotent; and a recorded step without \<open>firstP\<close> passes exactly when the normalized
  live \<open>firstP\<close> is empty.
\<close>

theorem normalize_total_idempotent:
  "normalize None = [] \<and>
   normalize (Some (normalize s)) = normalize s \<and>
   (firstP (content st) = None \<longrightarrow>
      (pass (verdict st live) \<longleftrightarrow> normalize (firstP live) = []))"
  by (auto simp: normalize_None normalize_idem pass_verdict)

theorem normalize_total_idempotent_witness:
  "firstP (content (recorded [] None)) = None \<and>
   pass (verdict (recorded [] None) (extractContent (text_page []))) \<and>
   normalize (firstP (extractContent (text_page []))) = []"
  using normalize_total_idempotent [of "None" "recorded [] None" "extractContent (text_page [])"]
  by (simp add: recorded_def extractContent_def extractFirstP_def text_page_def
      normalize_def trim_def)

subsection \<open>Content extraction\<close>

text \<open>
  C1. The extractor's \<open>firstP\<close> is meant never to be empty. On a document without
  paragraphs whose rendered text is empty the fallback yields the empty string.
\<close>

theorem extractFirstP_blank_page:
  "extractFirstP (text_page []) = [] \<and>
   firstP (extractContent (text_page [])) = Some []"
  by (simp add: extractContent_def extractFirstP_def text_page_def trim_def)

subsection \<open>Step store\<close>

lemma map_of_str_field_skip:
  "k \<noteq> k' \<Longrightarrow> map_of (str_field k' v @ rest) k = map_of rest k"
  by (cases v) simp_all

lemma map_of_str_field_last: "k \<noteq> k' \<Longrightarrow> map_of (str_field k' v) k = None"
  by (cases v) simp_all

lemma opt_str_skip: "k \<noteq> k' \<Longrightarrow> opt_str (str_field k' v @ rest) k = opt_str rest k"
  by (cases v) (simp_all add: opt_str_def)

lemma opt_str_hit: "map_of rest k = None \<Longrightarrow> opt_str (str_field k v @ rest) k = Some v"
  by (cases v) (simp_all add: opt_str_def)

lemma opt_str_last: "opt_str (str_field k v) k = Some v"
  by (cases v) (simp_all add: opt_str_def)

lemma content_roundtrip: "content_of_json (content_json c) = Some c"
  by (simp add: content_json_def opt_str_skip opt_str_hit opt_str_last
      map_of_str_field_skip map_of_str_field_last)

lemma step_roundtrip: "step_of_json (step_json s) = Some s"
proof (cases "isInitial s")
  case None
  show ?thesis
    by (cases "selector s") (simp_all add: step_json_def req_str_def content_roundtrip None)
next
  case (Some b)
  show ?thesis
    by (cases "selector s") (simp_all add: step_json_def req_str_def content_roundtrip Some)
qed

lemma all_steps_roundtrip: "all_steps (map step_json ss) = Some ss"
  by (induction ss) (simp_all add: step_roundtrip)

lemma same_store: "recorder_OUT_FILE cwd = OUT_FILE cwd"
  by (simp add: recorder_OUT_FILE_def recorder_OUT_DIR_def OUT_FILE_def OUT_DIR_def)

lemma loadSteps_saveSteps: "loadSteps cwd (saveSteps cwd ss fs) = Inr ss"
  by (simp add: loadSteps_def saveSteps_def same_store stringify_def all_steps_roundtrip)

text \<open>
  C6. Saving a sequence of steps with the recorder's \<open>saveSteps\<close> and loading it with the
  replayer's \<open>loadSteps\<close> (same working directory) yields the same sequence in the same
  order. It holds of every sequence, the empty one included.
\<close>

theorem store_roundtrip: "loadSteps cwd (saveSteps cwd ss fs) = Inr ss"
  by (rule loadSteps_saveSteps)

subsection \<open>Recorder: shutdown\<close>

lemma shutdown_latched: "shuttingDown r \<Longrightarrow> shutdown cwd ts r = r"
  by (induction ts) (simp_all add: shutdown_def gracefulExit_def)

text \<open>
  C8. A second call of \<open>gracefulExit\<close> changes nothing, and any non-empty sequence of
  shutdown triggers on a recorder that is not yet shutting down adds exactly one save,
  one browser close and one exit.
\<close>

theorem gracefulExit_once:
  "gracefulExit cwd (gracefulExit cwd r) = gracefulExit cwd r \<and>
   (\<not> shuttingDown r \<and> ts \<noteq> [] \<longrightarrow>
      log (shutdown cwd ts r) = log r @ [Saved (steps r), BrowserClosed, Exited 0] \<and>
      disk (shutdown cwd ts r) = saveSteps cwd (steps r) (disk r))"
proof -
  have 1: "gracefulExit cwd (gracefulExit cwd r) = gracefulExit cwd r"
    by (simp add: gracefulExit_def)
  have 2: "log (shutdown cwd ts r) = log r @ [Saved (steps r), BrowserClosed, Exited 0] \<and>
      disk (shutdown cwd ts r) = saveSteps cwd (steps r) (disk r)"
    if a: "\<not> shuttingDown r" "ts \<noteq> []"
  proof -
    from a obtain t rest where ts: "ts = t # rest" by (cases ts) auto
    have "shuttingDown (gracefulExit cwd r)" by (simp add: gracefulExit_def)
    then have "shutdown cwd rest (gracefulExit cwd r) = gracefulExit cwd r"
      by (rule shutdown_latched)
    then have "shutdown cwd ts r = gracefulExit cwd r"
      by (simp add: ts shutdown_def)
    with a show ?thesis by (simp add: gracefulExit_def)
  qed
  from 1 2 show ?thesis by blast
qed

theorem gracefulExit_once_witness:
  "\<not> shuttingDown fresh_recorder \<and> [PageClose, ContextClose, SIGINT] \<noteq> [] \<and>
   log (shutdown ''/w'' [PageClose, ContextClose, SIGINT] fresh_recorder) =
     [Saved [], BrowserClosed, Exited 0]"
  using gracefulExit_once [of "''/w''" fresh_recorder "[PageClose, ContextClose, SIGINT]"]
  by (simp add: fresh_recorder_def)

subsection \<open>Replayer: start-up checks\<close>

text \<open>
  C3. The replayer stops with exit code 1 when the store file is absent, and when the
  loaded sequence is not empty and one of the five mail settings is unset or empty; it
  stops with exit code 0 when the loaded sequence is empty. In each case the exit is the
  only event of the run: no browser is launched.
\<close>

theorem main_fail_fast:
  "(fs (OUT_FILE cwd) = None \<longrightarrow> main cwd fs env w = Some (stopped 1)) \<and>
   (loadSteps cwd fs = Inr [] \<longrightarrow> main cwd fs env w = Some (stopped 0)) \<and>
   (loadSteps cwd fs = Inr ss \<and> ss \<noteq> [] \<and>
      (unset (env ''EMAIL_HOST'') \<or> unset (env ''EMAIL_PORT'') \<or> unset (env ''EMAIL_USER'') \<or>
       unset (env ''EMAIL_PASS'') \<or> unset (env ''ALERT_TO'')) \<longrightarrow>
      main cwd fs env w = Some (stopped 1)) \<and>
   events (stopped c) = [Exit c]"
  by (auto simp: main_def loadSteps_def stopped_def)

theorem main_fail_fast_witness:
  "Map.empty (OUT_FILE ''/w'') = None \<and>
   main ''/w'' Map.empty Map.empty (steady []) = Some (stopped 1) \<and>
   loadSteps ''/w'' (saveSteps ''/w'' [] Map.empty) = Inr [] \<and>
   main ''/w'' (saveSteps ''/w'' [] Map.empty) Map.empty (steady []) = Some (stopped 0) \<and>
   loadSteps ''/w'' (saveSteps ''/w'' [recorded [] None] Map.empty) = Inr [recorded [] None] \<and>
   [recorded [] None] \<noteq> [] \<and> unset (Map.empty ''EMAIL_HOST'') \<and>
   main ''/w'' (saveSteps ''/w'' [recorded [] None] Map.empty) Map.empty (steady []) =
     Some (stopped 1)"
  using main_fail_fast [where fs = Map.empty and cwd = "''/w''" and env = Map.empty
      and w = "steady []"]
    main_fail_fast [where fs = "saveSteps ''/w'' [] Map.empty" and cwd = "''/w''"
      and env = Map.empty and w = "steady []"]
    main_fail_fast [where fs = "saveSteps ''/w'' [recorded [] None] Map.empty"
      and cwd = "''/w''" and ss = "[recorded [] None]" and env = Map.empty
      and w = "steady []"]
  by (simp add: loadSteps_saveSteps unset_def)

text \<open>An empty store ends the run with exit code 0.\<close>

theorem main_empty_store_exit_0:
  "main ''/w'' [''/w/baseline/steps.json'' \<mapsto> Text (JArr [])] Map.empty (steady []) = Some (stopped 0) \<and>
   events (stopped 0) = [Exit 0]"
  by (simp add: main_def loadSteps_def OUT_FILE_def OUT_DIR_def stopped_def)

subsection \<open>Recorder: selector derivation\<close>

text \<open>
  C7. For a clicked anchor whose resolved \<open>href\<close> is not empty, the listener forwards the
  selector \<open>a#<id>\<close> when the id is not empty, else \<open>a[href="<raw>"]\<close> when the raw href
  attribute is present and not empty. In every other case the listener forwards nothing,
  and then no step is recorded; the binding records no step either when the selector it
  receives is empty or is \<open>a\<close>.
\<close>

theorem selector_derivation:
  "(href a \<noteq> [] \<and> id' a \<noteq> [] \<longrightarrow>
      click_listener (Some a) =
        Some \<lparr> click_href = href a, click_selector = ustr ''a#'' @ id' a \<rparr>) \<and>
   (href a \<noteq> [] \<and> id' a = [] \<and> href_attr a = Some h \<and> h \<noteq> [] \<longrightarrow>
      click_listener (Some a) =
        Some \<lparr> click_href = href a,
               click_selector = ustr ''a[href='' @ [0x22] @ h @ [0x22] @ ustr '']'' \<rparr>) \<and>
   (href a = [] \<or> id' a = [] \<and> (href_attr a = None \<or> href_attr a = Some []) \<longrightarrow>
      click_listener (Some a) = None) \<and>
   click_listener None = None \<and>
   (click_listener t = None \<longrightarrow> on_click cwd d t r = r) \<and>
   (click_selector p = [] \<or> click_selector p = ustr ''a'' \<longrightarrow> recordClick cwd d p r = r)"
  by (auto simp: click_listener_def on_click_def recordClick_def ustr_def Let_def split: option.splits)

text \<open>
  An anchor with an id and no href: the listener returns before deriving a selector. An
  anchor without id whose href attribute is the empty string: no selector is formed.
\<close>

theorem anchor_without_href_ignored:
  "click_listener (Some \<lparr> id' = ustr ''x'', href_attr = None, href = [] \<rparr>) = None \<and>
   click_listener (Some \<lparr> id' = [], href_attr = Some [], href = ustr ''h'' \<rparr>) = None"
  by (simp add: click_listener_def ustr_def)

theorem selector_derivation_witness:
  "click_listener (Some \<lparr> id' = ustr ''x'', href_attr = Some (ustr ''/y''), href = ustr ''h/y'' \<rparr>) =
     Some \<lparr> click_href = ustr ''h/y'', click_selector = ustr ''a#x'' \<rparr> \<and>
   click_listener (Some \<lparr> id' = [], href_attr = Some (ustr ''/z''), href = ustr ''h/z'' \<rparr>) =
     Some \<lparr> click_href = ustr ''h/z'', click_selector = ustr ''a[href='' @ [0x22] @ ustr ''/z'' @ [0x22] @ ustr '']'' \<rparr> \<and>
   click_listener (Some \<lparr> id' = [], href_attr = None, href = [] \<rparr>) = None \<and>
   on_click ''/w'' plain_driver (Some \<lparr> id' = [], href_attr = None, href = [] \<rparr>) fresh_recorder = fresh_recorder \<and>
   recordClick ''/w'' plain_driver \<lparr> click_href = ustr ''h'', click_selector = ustr ''a'' \<rparr> fresh_recorder = fresh_recorder"
  using selector_derivation [where a = "\<lparr> id' = ustr ''x'', href_attr = Some (ustr ''/y''), href = ustr ''h/y'' \<rparr>"]
    selector_derivation [where a = "\<lparr> id' = [], href_attr = Some (ustr ''/z''), href = ustr ''h/z'' \<rparr>" and h = "ustr ''/z''"]
    selector_derivation [where a = "\<lparr> id' = [], href_attr = None, href = [] \<rparr>"
       and t = "Some \<lparr> id' = [], href_attr = None, href = [] \<rparr>" and cwd = "''/w''"
       and d = plain_driver and r = fresh_recorder
       and p = "\<lparr> click_href = ustr ''h'', click_selector = ustr ''a'' \<rparr>"]
  by (simp add: ustr_def)

subsection \<open>Replayer: the loop\<close>

lemma verdict_fields:
  "Step.truncate (verdict st live) = st" "liveContent (verdict st live) = live"
  "target_href (verdict st live) = target_href st" "content (verdict st live) = content st"
  by (simp_all add: verdict_def Step.truncate_def)

lemma replay_step_Inl:
  "visit w i = Inl e \<Longrightarrow>
   replay_step w i st s = (Some e, s\<lparr>events := events s @ [Goto (target_href st)]\<rparr>)"
  by (simp add: replay_step_def)

lemma replay_step_Inr:
  assumes "visit w i = Inr pg"
  shows "replay_step w i st s =
     (let r = verdict st (extractContent pg);
          fire = (\<not> pass r \<and> \<not> failureEmailSent s)
      in (if fire \<and> mail_err w i \<noteq> None then mail_err w i else pause_err w i,
          s\<lparr>events := events s @ [Goto (target_href st)] @
                          (if fire then [mismatch_alert i r] else []),
            hasMismatch := hasMismatch s \<or> \<not> pass r,
            results := results s @ [r],
            failureEmailSent := failureEmailSent s \<or> fire\<rparr>))"
  using assms
  by (auto simp: replay_step_def Let_def mismatch_alert_def verdict_fields pass_verdict)

lemma loop_rule:
  assumes run: "replay_loop w (drop i all) i s = (c, s')"
    and le: "i \<le> length all"
    and init: "I i s"
    and ok: "\<And>i s s'. i < length all \<Longrightarrow> I i s \<Longrightarrow>
               replay_step w i (all ! i) s = (None, s') \<Longrightarrow> I (Suc i) s'"
    and crash: "\<And>i s e s'. i < length all \<Longrightarrow> I i s \<Longrightarrow>
               replay_step w i (all ! i) s = (Some e, s') \<Longrightarrow> Q (Some e) s'"
    and fin: "\<And>s. I (length all) s \<Longrightarrow> Q None s"
  shows "Q c s'"
  using run le init
proof (induction "length all - i" arbitrary: i s)
  case 0
  then have i: "i = length all" by simp
  with 0 have "c = None" "s' = s" by simp_all
  with 0 i fin show ?case by simp
next
  case (Suc n)
  then have lt: "i < length all" by simp
  then have d: "drop i all = all ! i # drop (Suc i) all"
    by (simp add: Cons_nth_drop_Suc)
  obtain c1 s1 where b: "replay_step w i (all ! i) s = (c1, s1)"
    by (cases "replay_step w i (all ! i) s")
  show ?case
  proof (cases c1)
    case None
    with b Suc.prems(1) d have r: "replay_loop w (drop (Suc i) all) (Suc i) s1 = (c, s')"
      by simp
    from ok [OF lt Suc.prems(3)] b None have "I (Suc i) s1" by simp
    moreover from Suc.hyps(2) have "n = length all - Suc i" by simp
    moreover from lt have "Suc i \<le> length all" by simp
    ultimately show ?thesis using Suc.hyps(1) r by blast
  next
    case (Some e)
    with b Suc.prems(1) d have "c = Some e" "s' = s1" by simp_all
    with crash [OF lt Suc.prems(3)] b Some show ?thesis by simp
  qed
qed


lemma alerts_simps:
  "alerts [] = []" "alerts (es @ fs) = alerts es @ alerts fs"
  "alerts (Goto u # es) = alerts es" "alerts (Launch h # es) = alerts es"
  "alerts (mismatch_alert i r # es) = mismatch_alert i r # alerts es"
  "alerts (crash_alert e # es) = crash_alert e # alerts es"
  "alerts (LogCrash e # es) = alerts es" "alerts (Close # es) = alerts es"
  "alerts (WriteReport rs # es) = alerts es" "alerts (Uncaught e # es) = alerts es"
  by (simp_all add: alerts_def mismatch_alert_def crash_alert_def)

lemma settled_boot: "settled w all 0 (boot h)"
  by (simp add: settled_def boot_def alerts_simps)

lemma settled_Inr:
  assumes i: "i < length all" and inv: "settled w all i s"
    and v: "visit w i = Inr pg"
  shows "settled w all (Suc i) (snd (replay_step w i (all ! i) s))"
proof -
  define s' where "s' = snd (replay_step w i (all ! i) s)"
  define r where "r = verdict (all ! i) (extractContent pg)"
  define fire where "fire = (\<not> pass r \<and> \<not> failureEmailSent s)"
  note s' = s'_def
  from inv have len: "length (results s) = i" by (simp add: settled_def)
  have res: "results s' = results s @ [r]"
    by (simp add: s' replay_step_Inr [OF v] Let_def r_def)
  have nth_old: "\<And>j. j < i \<Longrightarrow> results s' ! j = results s ! j"
    by (simp add: res nth_append len)
  have nth_new: "results s' ! i = r" by (simp add: res nth_append len)
  have al: "alerts (events s') = alerts (events s) @ (if fire then [mismatch_alert i r] else [])"
    by (simp add: s' replay_step_Inr [OF v] Let_def r_def fire_def alerts_simps)
  have fs: "failureEmailSent s' \<longleftrightarrow> failureEmailSent s \<or> \<not> pass r"
    by (auto simp: s' replay_step_Inr [OF v] Let_def r_def)
  have 1: "length (results s') = Suc i" by (simp add: res len)
  have 2: "Suc i \<le> length all" using i by simp
  have 3: "\<forall>j<Suc i. \<exists>pg. visit w j = Inr pg \<and> results s' ! j = verdict (all ! j) (extractContent pg)"
  proof (intro allI impI)
    fix j assume "j < Suc i"
    then consider "j < i" | "j = i" by linarith
    then show "\<exists>pg. visit w j = Inr pg \<and> results s' ! j = verdict (all ! j) (extractContent pg)"
    proof cases
      case 1
      with inv show ?thesis by (simp add: settled_def nth_old)
    next
      case 2
      with v show ?thesis by (simp add: nth_new r_def)
    qed
  qed
  have 4: "failureEmailSent s' \<longleftrightarrow> (\<exists>j<Suc i. \<not> pass (results s' ! j))"
  proof -
    from inv have "failureEmailSent s \<longleftrightarrow> (\<exists>j<i. \<not> pass (results s ! j))"
      by (simp add: settled_def)
    then have "failureEmailSent s \<longleftrightarrow> (\<exists>j<i. \<not> pass (results s' ! j))"
      using nth_old by auto
    with fs show ?thesis by (auto simp: less_Suc_eq nth_new)
  qed
  have 5: "\<not> failureEmailSent s' \<longrightarrow> alerts (events s') = []"
    using inv fs by (auto simp: al fire_def settled_def)
  have 6: "\<forall>j<Suc i. \<not> pass (results s' ! j) \<and> (\<forall>k<j. pass (results s' ! k)) \<longrightarrow>
        alerts (events s') = [mismatch_alert j (results s' ! j)]"
  proof (intro allI impI)
    fix j assume j: "j < Suc i"
      and f: "\<not> pass (results s' ! j) \<and> (\<forall>k<j. pass (results s' ! k))"
    from j consider "j < i" | "j = i" by linarith
    then show "alerts (events s') = [mismatch_alert j (results s' ! j)]"
    proof cases
      case 1
      with f have f': "\<not> pass (results s ! j) \<and> (\<forall>k<j. pass (results s ! k))"
        by (simp add: nth_old)
      with inv 1 have a: "alerts (events s) = [mismatch_alert j (results s ! j)]"
        by (simp add: settled_def)
      from inv 1 f' have "failureEmailSent s" by (auto simp: settled_def)
      then have "\<not> fire" by (simp add: fire_def)
      with a 1 show ?thesis by (simp add: al nth_old)
    next
      case 2
      with f have np: "\<not> pass r" and ap: "\<forall>k<i. pass (results s ! k)"
        by (simp_all add: nth_new nth_old)
      from inv ap have nf: "\<not> failureEmailSent s" by (auto simp: settled_def)
      with inv have "alerts (events s) = []" by (simp add: settled_def)
      with np nf 2 show ?thesis by (simp add: al fire_def nth_new)
    qed
  qed
  from 1 2 3 4 5 6 show ?thesis unfolding settled_def s'_def [symmetric] by blast
qed

lemma settled_Inl:
  assumes inv: "settled w all i s" and v: "visit w i = Inl e"
  shows "settled w all i (snd (replay_step w i (all ! i) s))"
  using inv by (simp add: replay_step_Inl [OF v] settled_def alerts_simps)

lemma thrown_Inr:
  assumes v: "visit w i = Inr pg" and b: "replay_step w i st s = (Some e, s')"
  shows "mail_err w i = Some e \<or> pause_err w i = Some e"
  using b by (auto simp: replay_step_Inr [OF v] Let_def split: if_splits)

lemma loop_settled:
  assumes run: "replay_loop w all 0 (boot h) = (c, s')"
  shows "\<exists>n. settled w all n s' \<and> thrown_at w all n c"
proof (rule loop_rule [where I = "settled w all" and i = 0 and all = all and w = w
      and s = "boot h" and c = c and s' = s'])
  show "replay_loop w (drop 0 all) 0 (boot h) = (c, s')" using run by simp
  show "0 \<le> length all" by simp
  show "settled w all 0 (boot h)" by (rule settled_boot)
next
  fix i s s'
  assume i: "i < length all" and inv: "settled w all i s"
    and b: "replay_step w i (all ! i) s = (None, s')"
  from b obtain pg where v: "visit w i = Inr pg"
    by (cases "visit w i") (simp_all add: replay_step_Inl)
  from settled_Inr [OF i inv v] b show "settled w all (Suc i) s'" by simp
next
  fix i s e s'
  assume i: "i < length all" and inv: "settled w all i s"
    and b: "replay_step w i (all ! i) s = (Some e, s')"
  show "\<exists>n. settled w all n s' \<and> thrown_at w all n (Some e)"
  proof (cases "visit w i")
    case (Inl e')
    with b have "e' = e" by (simp add: replay_step_Inl)
    with Inl i have "thrown_at w all i (Some e)" by (simp add: thrown_at_def)
    moreover from settled_Inl [OF inv Inl] b have "settled w all i s'" by simp
    ultimately show ?thesis by blast
  next
    case (Inr pg)
    from thrown_Inr [OF Inr b] have "thrown_at w all (Suc i) (Some e)"
      by (simp add: thrown_at_def)
    moreover from settled_Inr [OF i inv Inr] b have "settled w all (Suc i) s'" by simp
    ultimately show ?thesis by blast
  qed
next
  fix s
  assume "settled w all (length all) s"
  then show "\<exists>n. settled w all n s \<and> thrown_at w all n None"
    by (auto simp: thrown_at_def)
qed

lemma replay_unfold:
  assumes "replay_loop w all 0 (boot h) = (c, s')"
  shows "results (replay w h all) = results s'"
    and "events (replay w h all) = events s' @ tail_events w c s'"
  using assms
  by (auto simp: replay_def boot_def tail_events_def crash_alert_def close_and_report_def
      Let_def split: option.splits)

lemma replay_shape:
  "\<exists>n c s'. settled w all n s' \<and> thrown_at w all n c \<and>
     results (replay w h all) = results s' \<and>
     events (replay w h all) = events s' @ tail_events w c s'"
proof -
  obtain c s' where run: "replay_loop w all 0 (boot h) = (c, s')"
    by (cases "replay_loop w all 0 (boot h)")
  from loop_settled [OF run] replay_unfold [OF run] show ?thesis by blast
qed

lemma visited_append: "visited (es @ fs) = visited es @ visited fs"
  by (induction es rule: visited.induct) simp_all

lemma visited_tail: "visited (tail_events w c s) = []"
  by (simp add: tail_events_def crash_alert_def split: option.splits)

lemma settled_live_pass:
  assumes st: "settled w all i s" and j: "j < i"
  shows "live_pass w all j = pass (results s ! j)"
proof -
  from st j obtain pg where "visit w j = Inr pg"
    "results s ! j = verdict (all ! j) (extractContent pg)"
    by (auto simp: settled_def)
  then show ?thesis by (simp add: live_pass_def)
qed

lemma settled_latch:
  assumes st: "settled w all i s"
  shows "failureEmailSent s \<longleftrightarrow> \<not> (\<forall>j<i. live_pass w all j)"
proof -
  from st have "failureEmailSent s \<longleftrightarrow> (\<exists>j<i. \<not> pass (results s ! j))"
    by (simp add: settled_def)
  with settled_live_pass [OF st] show ?thesis by auto
qed

lemma step_thrown:
  assumes st: "settled w all i s" and v: "visit w i = Inr pg"
  shows "fst (replay_step w i (all ! i) s) = thrown_in w all i"
proof -
  have "live_pass w all i = pass (verdict (all ! i) (extractContent pg))"
    by (simp add: live_pass_def v)
  with settled_latch [OF st] show ?thesis
    by (auto simp: replay_step_Inr [OF v] Let_def thrown_in_def fires_def)
qed

lemma step_visited:
  "visited (events (snd (replay_step w i st s))) = visited (events s) @ [target_href st]"
proof (cases "visit w i")
  case (Inl e)
  then show ?thesis by (simp add: replay_step_Inl visited_append)
next
  case (Inr pg)
  then show ?thesis
    by (simp add: replay_step_Inr Let_def visited_append mismatch_alert_def)
qed

lemma loop_halted:
  assumes run: "replay_loop w all 0 (boot h) = (c, s')"
  shows "\<exists>n. settled w all n s' \<and> halted w all n c s'"
proof (rule loop_rule [where
      I = "\<lambda>i s. settled w all i s \<and> (\<forall>j<i. thrown_in w all j = None) \<and>
                  visited (events s) = map target_href (take i all)"
      and i = 0 and all = all and w = w and s = "boot h" and c = c and s' = s'])
  show "replay_loop w (drop 0 all) 0 (boot h) = (c, s')" using run by simp
  show "0 \<le> length all" by simp
  show "settled w all 0 (boot h) \<and> (\<forall>j<0. thrown_in w all j = None) \<and>
        visited (events (boot h)) = map target_href (take 0 all)"
    by (simp add: settled_boot) (simp add: boot_def)
next
  fix i s s1
  assume i: "i < length all"
    and inv: "settled w all i s \<and> (\<forall>j<i. thrown_in w all j = None) \<and>
              visited (events s) = map target_href (take i all)"
    and b: "replay_step w i (all ! i) s = (None, s1)"
  from b obtain pg where v: "visit w i = Inr pg"
    by (cases "visit w i") (simp_all add: replay_step_Inl)
  from inv have st: "settled w all i s" by simp
  from settled_Inr [OF i st v] b have 1: "settled w all (Suc i) s1" by simp
  from step_thrown [OF st v] b have "thrown_in w all i = None" by simp
  with inv have 2: "\<forall>j<Suc i. thrown_in w all j = None" by (auto simp: less_Suc_eq)
  from step_visited [of w i "all ! i" s] b inv i
  have 3: "visited (events s1) = map target_href (take (Suc i) all)"
    by (simp add: take_Suc_conv_app_nth)
  from 1 2 3 show "settled w all (Suc i) s1 \<and> (\<forall>j<Suc i. thrown_in w all j = None) \<and>
              visited (events s1) = map target_href (take (Suc i) all)" by blast
next
  fix i s e s1
  assume i: "i < length all"
    and inv: "settled w all i s \<and> (\<forall>j<i. thrown_in w all j = None) \<and>
              visited (events s) = map target_href (take i all)"
    and b: "replay_step w i (all ! i) s = (Some e, s1)"
  from inv have st: "settled w all i s" by simp
  from step_visited [of w i "all ! i" s] b inv i
  have vis: "visited (events s1) = map target_href (take (Suc i) all)"
    by (simp add: take_Suc_conv_app_nth)
  show "\<exists>n. settled w all n s1 \<and> halted w all n (Some e) s1"
  proof (cases "visit w i")
    case (Inl e')
    with b have "e' = e" by (simp add: replay_step_Inl)
    with Inl i inv vis have "halted w all i (Some e) s1" by (simp add: halted_def)
    moreover from settled_Inl [OF st Inl] b have "settled w all i s1" by simp
    ultimately show ?thesis by blast
  next
    case (Inr pg)
    from step_thrown [OF st Inr] b have "thrown_in w all i = Some e" by simp
    with inv vis have "halted w all (Suc i) (Some e) s1" by (simp add: halted_def)
    moreover from settled_Inr [OF i st Inr] b have "settled w all (Suc i) s1" by simp
    ultimately show ?thesis by blast
  qed
next
  fix s
  assume "settled w all (length all) s \<and> (\<forall>j<length all. thrown_in w all j = None) \<and>
          visited (events s) = map target_href (take (length all) all)"
  then show "\<exists>n. settled w all n s \<and> halted w all n None s"
    by (auto simp: halted_def)
qed

lemma replay_halt:
  "\<exists>n c s'. settled w all n s' \<and> halted w all n c s' \<and>
     results (replay w h all) = results s' \<and>
     events (replay w h all) = events s' @ tail_events w c s'"
proof -
  obtain c s' where run: "replay_loop w all 0 (boot h) = (c, s')"
    by (cases "replay_loop w all 0 (boot h)")
  from loop_halted [OF run] replay_unfold [OF run] show ?thesis by blast
qed


lemma settled_visit: "settled w all n s \<Longrightarrow> j < n \<Longrightarrow> \<exists>pg. visit w j = Inr pg"
  by (auto simp: settled_def)

lemma stop_reach:
  assumes st: "settled w all n s'" and ha: "halted w all n c s'"
    and k: "k < length all" and rt: "\<forall>j<k. runs_through w all j"
    and v: "visit w k = Inr pg"
  shows "k < n"
proof (rule ccontr)
  assume "\<not> k < n"
  then have nk: "n \<le> k" by simp
  from ha consider
      (fin) "c = None" "n = length all"
    | (nav) e where "c = Some e" "n < length all" "visit w n = Inl e"
    | (late) e m where "c = Some e" "n = Suc m" "thrown_in w all m = Some e"
    unfolding halted_def by blast
  then show False
  proof cases
    case fin
    with nk k show False by simp
  next
    case nav
    show False
    proof (cases "n = k")
      case True
      with nav v show False by simp
    next
      case False
      with nk rt have "runs_through w all n" by simp
      with nav show False by (auto simp: runs_through_def)
    qed
  next
    case late
    with nk rt have "runs_through w all m" by simp
    with late show False by (simp add: runs_through_def)
  qed
qed

lemma stop_nav:
  assumes st: "settled w all n s'" and ha: "halted w all n c s'"
    and k: "k < length all" and rt: "\<forall>j<k. runs_through w all j"
    and v: "visit w k = Inl err"
  shows "n = k \<and> c = Some err \<and> visited (events s') = map target_href (take (Suc k) all)"
proof -
  have "n \<le> k"
  proof (rule ccontr)
    assume "\<not> n \<le> k"
    then have "k < n" by simp
    from settled_visit [OF st this] v show False by simp
  qed
  have "k \<le> n"
  proof (rule ccontr)
    assume "\<not> k \<le> n"
    then have nk: "n < k" by simp
    with k have n: "n < length all" by simp
    from nk rt have "runs_through w all n" by simp
    then obtain pg where "visit w n = Inr pg" by (auto simp: runs_through_def)
    moreover from nk rt have "\<forall>j<n. runs_through w all j" by simp
    ultimately have "n < n" using stop_reach [OF st ha n] by blast
    then show False by simp
  qed
  with \<open>n \<le> k\<close> have nk: "n = k" by simp
  from ha consider
      (fin) "c = None" "n = length all"
    | (nav) e where "c = Some e" "visit w n = Inl e"
        "visited (events s') = map target_href (take (Suc n) all)"
    | (late) e m where "c = Some e" "n = Suc m" "thrown_in w all m = Some e"
    unfolding halted_def by blast
  then show ?thesis
  proof cases
    case fin
    with nk k show ?thesis by simp
  next
    case nav
    with nk v show ?thesis by simp
  next
    case late
    with nk rt have "runs_through w all m" by simp
    with late show ?thesis by (simp add: runs_through_def)
  qed
qed

lemma stop_late:
  assumes st: "settled w all n s'" and ha: "halted w all n c s'"
    and k: "k < length all" and rt: "\<forall>j<k. runs_through w all j"
    and v: "visit w k = Inr pg" and th: "thrown_in w all k = Some err"
  shows "n = Suc k \<and> c = Some err \<and> visited (events s') = map target_href (take (Suc k) all)"
proof -
  from stop_reach [OF st ha k rt v] have kn: "k < n" .
  from ha consider
      (fin) "c = None" "\<forall>j<n. thrown_in w all j = None"
    | (nav) e where "c = Some e" "\<forall>j<n. thrown_in w all j = None"
    | (late) e m where "c = Some e" "n = Suc m" "thrown_in w all m = Some e"
        "\<forall>j<m. thrown_in w all j = None"
        "visited (events s') = map target_href (take n all)"
    unfolding halted_def by blast
  then show ?thesis
  proof cases
    case fin
    with kn th show ?thesis by simp
  next
    case nav
    with kn th show ?thesis by simp
  next
    case late
    have "m = k"
    proof (rule ccontr)
      assume "m \<noteq> k"
      with kn late(2) have "k < m" by simp
      with late(4) th show False by simp
    qed
    with late th show ?thesis by simp
  qed
qed

subsection \<open>Replayer: results, verdicts, alerts\<close>

text \<open>
  C9. Every result of a run is the recorded step of the same index with \<open>liveContent\<close>
  and \<open>pass\<close> added: cut back to the fields of a step, it is that step. The run reads
  the recorded sequence and never writes it: the sequence is an argument of \<open>replay\<close>, and
  the loop's state holds only what the code assigns.
\<close>

theorem results_preserve_steps:
  fixes w h all
  defines "r \<equiv> replay w h all"
  shows "length (results r) \<le> length all \<and>
         (\<forall>j<length (results r). Step.truncate (results r ! j) = all ! j)"
proof -
  from replay_shape [of w all h] obtain n c s' where
    st: "settled w all n s'" and res: "results r = results s'"
    unfolding r_def by blast
  from st res have "length (results r) = n" "n \<le> length all" by (simp_all add: settled_def)
  moreover have "Step.truncate (results r ! j) = all ! j" if "j < n" for j
  proof -
    from st that obtain pg where "results s' ! j = verdict (all ! j) (extractContent pg)"
      by (auto simp: settled_def)
    with res show ?thesis by (simp add: verdict_fields)
  qed
  ultimately show ?thesis by simp
qed



subsection \<open>Replayer: the alert latch\<close>

lemma settled_alerts:
  assumes st: "settled w all n s"
  shows "if failureEmailSent s
         then \<exists>m<n. \<not> pass (results s ! m) \<and> (\<forall>k<m. pass (results s ! k)) \<and>
                alerts (events s) = [mismatch_alert m (results s ! m)]
         else alerts (events s) = [] \<and> (\<forall>j<n. pass (results s ! j))"
proof (cases "failureEmailSent s")
  case True
  with st have ex: "\<exists>j. j < n \<and> \<not> pass (results s ! j)" by (auto simp: settled_def)
  define m where "m = (LEAST j. j < n \<and> \<not> pass (results s ! j))"
  from ex have m: "m < n \<and> \<not> pass (results s ! m)" unfolding m_def by (rule LeastI_ex)
  have least: "pass (results s ! k)" if "k < m" for k
  proof (rule ccontr)
    assume "\<not> pass (results s ! k)"
    with that m have "k < n \<and> \<not> pass (results s ! k)" by simp
    then have "m \<le> k" unfolding m_def by (rule Least_le)
    with that show False by simp
  qed
  with st m have "alerts (events s) = [mismatch_alert m (results s ! m)]"
    by (simp add: settled_def)
  with m least True show ?thesis by auto
next
  case False
  with st show ?thesis by (auto simp: settled_def)
qed

lemma alerts_tail:
  "alerts (tail_events w c s) =
     (case c of None \<Rightarrow> [] | Some e \<Rightarrow> if failureEmailSent s then [] else [crash_alert e])"
  by (simp add: tail_events_def alerts_simps split: option.splits)

text \<open>
  C4. A run sends at most one alert, and when some result fails, the one alert is that of
  the first failing result, however many results fail.
\<close>

theorem single_alert:
  fixes w h all
  defines "r \<equiv> replay w h all"
  shows "length (alerts (events r)) \<le> 1 \<and>
         (\<forall>j<length (results r). \<not> pass (results r ! j) \<and> (\<forall>k<j. pass (results r ! k)) \<longrightarrow>
            alerts (events r) = [mismatch_alert j (results r ! j)])"
proof -
  from replay_shape [of w all h] obtain n c s' where
    st: "settled w all n s'" and res: "results r = results s'"
    and ev: "events r = events s' @ tail_events w c s'"
    unfolding r_def by blast
  from st res have len: "length (results r) = n" by (simp add: settled_def)
  have al: "alerts (events r) = alerts (events s') @ alerts (tail_events w c s')"
    by (simp add: ev alerts_simps)
  have 1: "length (alerts (events r)) \<le> 1"
    using settled_alerts [OF st] by (auto simp: al alerts_tail split: option.splits if_splits)
  have 2: "alerts (events r) = [mismatch_alert j (results r ! j)]"
    if j: "j < length (results r)"
      and f: "\<not> pass (results r ! j) \<and> (\<forall>k<j. pass (results r ! k))" for j
  proof -
    from st j f len res have a: "alerts (events s') = [mismatch_alert j (results s' ! j)]"
      by (simp add: settled_def)
    from st j f len res have "failureEmailSent s'" by (auto simp: settled_def)
    then have "alerts (tail_events w c s') = []" by (simp add: alerts_tail split: option.splits)
    with a res show ?thesis by (simp add: al)
  qed
  from 1 2 show ?thesis by blast
qed


subsection \<open>Replayer: the crash path\<close>

lemma in_alerts: "is_mail e \<Longrightarrow> e \<in> set es \<Longrightarrow> e \<in> set (alerts es)"
  by (simp add: alerts_def)

lemma crash_not_mismatch: "crash_alert e \<noteq> mismatch_alert m r"
  by (simp add: crash_alert_def mismatch_alert_def)

lemma crash_outcome:
  assumes st: "settled w all n s'" and res: "results r = results s'"
    and ev: "events r = events s' @ tail_events w (Some err) s'"
  shows "length (results r) = n \<and>
         (\<forall>j<n. \<exists>pg. visit w j = Inr pg \<and> results r ! j = verdict (all ! j) (extractContent pg)) \<and>
         LogCrash err \<in> set (events r) \<and>
         ((\<forall>j<n. pass (results r ! j)) \<longrightarrow> alerts (events r) = [crash_alert err]) \<and>
         ((\<exists>j<n. \<not> pass (results r ! j)) \<longrightarrow>
            crash_alert err \<notin> set (events r) \<and>
            (\<exists>m<n. alerts (events r) = [mismatch_alert m (results r ! m)])) \<and>
         Close \<in> set (events r) \<and>
         (crash_mail_err w = None \<or> (\<exists>j<n. \<not> pass (results r ! j)) \<longrightarrow>
            last (events r) = WriteReport (results r))"
proof -
  have al: "alerts (events r) = alerts (events s') @ alerts (tail_events w (Some err) s')"
    by (simp add: ev alerts_simps)
  note sa = settled_alerts [OF st]
  have 1: "length (results r) = n" using st res by (simp add: settled_def)
  have 2: "\<forall>j<n. \<exists>pg. visit w j = Inr pg \<and> results r ! j = verdict (all ! j) (extractContent pg)"
    using st res by (simp add: settled_def)
  have 3: "LogCrash err \<in> set (events r)" by (simp add: ev tail_events_def)
  have 4: "alerts (events r) = [crash_alert err]" if "\<forall>j<n. pass (results r ! j)"
  proof -
    from st that res have "\<not> failureEmailSent s'" by (simp add: settled_def)
    with sa show ?thesis by (simp add: al alerts_tail)
  qed
  have 5: "crash_alert err \<notin> set (events r) \<and>
            (\<exists>m<n. alerts (events r) = [mismatch_alert m (results r ! m)])"
    if "\<exists>j<n. \<not> pass (results r ! j)"
  proof -
    from st that res have f: "failureEmailSent s'" by (simp add: settled_def)
    with sa obtain m where m: "m < n" "alerts (events s') = [mismatch_alert m (results s' ! m)]"
      by auto
    with f have a: "alerts (events r) = [mismatch_alert m (results r ! m)]"
      by (simp add: al alerts_tail res)
    have "crash_alert err \<notin> set (events r)"
    proof
      assume "crash_alert err \<in> set (events r)"
      then have "crash_alert err \<in> set (alerts (events r))"
        by (rule in_alerts [rotated]) (simp add: crash_alert_def)
      with a show False by (simp add: crash_not_mismatch)
    qed
    with a m show ?thesis by blast
  qed
  have 6: "Close \<in> set (events r)"
    by (simp add: ev tail_events_def split: option.splits)
  have 7: "last (events r) = WriteReport (results r)"
    if "crash_mail_err w = None \<or> (\<exists>j<n. \<not> pass (results r ! j))"
  proof -
    from that st res have "crash_mail_err w = None \<or> failureEmailSent s'"
      by (auto simp: settled_def)
    then show ?thesis by (auto simp: ev tail_events_def res)
  qed
  from 1 2 3 4 5 6 7 show ?thesis by blast
qed

text \<open>
  C5. A crash in iteration \<open>k\<close> (counted from 0), the iterations before it having run
  through, throws \<open>err\<close> either at the visit, and then \<open>n = k\<close> results are in, or after
  the result of step \<open>k\<close> is in (by the alert or the closing wait), and then
  \<open>n = k + 1\<close>. In both cases the results are exactly those of steps \<open>0\<close> to \<open>n - 1\<close>; no
  step after \<open>k\<close> is visited; the crash is logged; the crash alert carrying \<open>err\<close> is the
  run's only alert when all these results pass, and is not sent when one of them fails
  (the alert of the first mismatch is then the only one); the browser is closed; and the
  report, with exactly these results, is the last event of the run when the crash alert
  does not throw or is not sent.
\<close>

theorem crash_path:
  fixes w h all
  defines "r \<equiv> replay w h all"
  assumes k: "k < length all" and rt: "\<forall>j<k. runs_through w all j"
    and cr: "visit w k = Inl err \<and> n = k \<or>
             (\<exists>pg. visit w k = Inr pg) \<and> thrown_in w all k = Some err \<and> n = Suc k"
  shows "length (results r) = n \<and>
         (\<forall>j<n. \<exists>pg. visit w j = Inr pg \<and> results r ! j = verdict (all ! j) (extractContent pg)) \<and>
         visited (events r) = map target_href (take (Suc k) all) \<and>
         LogCrash err \<in> set (events r) \<and>
         ((\<forall>j<n. pass (results r ! j)) \<longrightarrow> alerts (events r) = [crash_alert err]) \<and>
         ((\<exists>j<n. \<not> pass (results r ! j)) \<longrightarrow>
            crash_alert err \<notin> set (events r) \<and>
            (\<exists>m<n. alerts (events r) = [mismatch_alert m (results r ! m)])) \<and>
         Close \<in> set (events r) \<and>
         (crash_mail_err w = None \<or> (\<exists>j<n. \<not> pass (results r ! j)) \<longrightarrow>
            last (events r) = WriteReport (results r))"
proof -
  from replay_halt [of w all h] obtain n' c s' where
    st: "settled w all n' s'" and ha: "halted w all n' c s'" and res: "results r = results s'"
    and ev: "events r = events s' @ tail_events w c s'"
    unfolding r_def by blast
  have "n' = n \<and> c = Some err \<and> visited (events s') = map target_href (take (Suc k) all)"
    using cr
  proof
    assume "visit w k = Inl err \<and> n = k"
    with stop_nav [OF st ha k rt] show ?thesis by simp
  next
    assume a: "(\<exists>pg. visit w k = Inr pg) \<and> thrown_in w all k = Some err \<and> n = Suc k"
    then obtain pg where "visit w k = Inr pg" by blast
    from stop_late [OF st ha k rt this] a show ?thesis by simp
  qed
  then have n: "n' = n" and c: "c = Some err"
    and vis: "visited (events s') = map target_href (take (Suc k) all)" by simp_all
  have "visited (events r) = map target_href (take (Suc k) all)"
    by (simp add: ev visited_append visited_tail vis)
  with crash_outcome [OF st res ev [unfolded c]] n show ?thesis by simp
qed

subsection \<open>Sample runs\<close>

lemmas sample_defs = replay_def replay_step_def verdict_def mail_down_def wait_fails_def
  timeout_at_def steady_def text_page_def titled_page_def recorded_def two_steps_def
  other_step_def extractContent_def extractFirstP_def normalize_def trim_def ustr_def
  is_ws_def SP_def Let_def close_and_report_def or_empty_def alerts_def mismatch_alert_def
  crash_alert_def Step.truncate_def

lemma sample_visits:
  "visit (steady t) j = Inr (text_page t)"
  "visit (mail_down t) j = Inr (text_page t)"
  "visit (wait_fails t) j = Inr (text_page t)"
  "visit (timeout_at k t) k = Inl (ustr ''timeout'')"
  "crash_mail_err (steady t) = None" "crash_mail_err (wait_fails t) = None"
  "crash_mail_err (timeout_at k t) = None"
  by (simp_all add: steady_def mail_down_def wait_fails_def timeout_at_def)

lemma sample_throws:
  "runs_through (steady t) all j"
  "k \<noteq> j \<Longrightarrow> runs_through (timeout_at k t) all j"
  "thrown_in (wait_fails t) all j = Some (ustr ''closed'')"
  by (simp_all add: runs_through_def thrown_in_def steady_def wait_fails_def timeout_at_def)

lemma sample_alert_throws:
  "thrown_in (mail_down (ustr ''B'')) two_steps 0 = Some (ustr ''smtp'')"
  by (simp add: thrown_in_def fires_def live_pass_def sample_defs)

lemma run_steady_A:
  "length (results (replay (steady (ustr ''A'')) True two_steps)) = 2"
  "pass (results (replay (steady (ustr ''A'')) True two_steps) ! 0)"
  by (simp_all add: sample_defs)

lemma run_steady_B:
  "length (results (replay (steady (ustr ''B'')) True two_steps)) = 2"
  "\<not> pass (results (replay (steady (ustr ''B'')) True two_steps) ! 0)"
  "\<not> pass (results (replay (steady (ustr ''B'')) True two_steps) ! 1)"
  by (simp_all add: sample_defs)

lemma run_timeout:
  "pass (results (replay (timeout_at 1 (ustr ''A'')) True two_steps) ! 0)"
  "\<not> pass (results (replay (timeout_at 1 (ustr ''B'')) True two_steps) ! 0)"
  by (simp_all add: sample_defs)

lemma run_late:
  "\<not> pass (results (replay (mail_down (ustr ''B'')) True two_steps) ! 0)"
  "pass (results (replay (wait_fails (ustr ''A'')) True two_steps) ! 0)"
  by (simp_all add: sample_defs)


theorem results_preserve_steps_witness:
  "0 < length (results (replay (steady (ustr ''A'')) True two_steps)) \<and>
   Step.truncate (results (replay (steady (ustr ''A'')) True two_steps) ! 0) = two_steps ! 0"
  using results_preserve_steps [where w = "steady (ustr ''A'')" and h = True and all = two_steps]
  by (simp add: run_steady_A)



theorem single_alert_witness:
  "0 < length (results (replay (steady (ustr ''B'')) True two_steps)) \<and>
   \<not> pass (results (replay (steady (ustr ''B'')) True two_steps) ! 0) \<and>
   \<not> pass (results (replay (steady (ustr ''B'')) True two_steps) ! 1) \<and>
   alerts (events (replay (steady (ustr ''B'')) True two_steps)) =
     [mismatch_alert 0 (results (replay (steady (ustr ''B'')) True two_steps) ! 0)]"
proof -
  have 0: "0 < length (results (replay (steady (ustr ''B'')) True two_steps))"
    by (simp add: run_steady_B)
  from single_alert [where w = "steady (ustr ''B'')" and h = True and all = two_steps]
  have "\<forall>j<length (results (replay (steady (ustr ''B'')) True two_steps)).
      \<not> pass (results (replay (steady (ustr ''B'')) True two_steps) ! j) \<and>
      (\<forall>k<j. pass (results (replay (steady (ustr ''B'')) True two_steps) ! k)) \<longrightarrow>
      alerts (events (replay (steady (ustr ''B'')) True two_steps)) =
        [mismatch_alert j (results (replay (steady (ustr ''B'')) True two_steps) ! j)]"
    by (rule conjunct2)
  from this [rule_format, OF 0] 0 run_steady_B show ?thesis by simp
qed

text \<open>
  The visit of the second step times out, after a first result that passes, and after one
  that fails; the alert of a mismatch at the first step throws; the closing wait of the
  first step throws after a result that passes.
\<close>

theorem crash_path_witness:
  "1 < length two_steps \<and> visit (timeout_at 1 (ustr ''A'')) 1 = Inl (ustr ''timeout'') \<and>
   runs_through (timeout_at 1 (ustr ''A'')) two_steps 0 \<and>
   length (results (replay (timeout_at 1 (ustr ''A'')) True two_steps)) = 1 \<and>
   pass (results (replay (timeout_at 1 (ustr ''A'')) True two_steps) ! 0) \<and>
   alerts (events (replay (timeout_at 1 (ustr ''A'')) True two_steps)) =
     [crash_alert (ustr ''timeout'')] \<and>
   last (events (replay (timeout_at 1 (ustr ''A'')) True two_steps)) =
     WriteReport (results (replay (timeout_at 1 (ustr ''A'')) True two_steps)) \<and>
   runs_through (timeout_at 1 (ustr ''B'')) two_steps 0 \<and>
   \<not> pass (results (replay (timeout_at 1 (ustr ''B'')) True two_steps) ! 0) \<and>
   crash_alert (ustr ''timeout'') \<notin>
     set (events (replay (timeout_at 1 (ustr ''B'')) True two_steps)) \<and>
   thrown_in (mail_down (ustr ''B'')) two_steps 0 = Some (ustr ''smtp'') \<and>
   length (results (replay (mail_down (ustr ''B'')) True two_steps)) = 1 \<and>
   \<not> pass (results (replay (mail_down (ustr ''B'')) True two_steps) ! 0) \<and>
   crash_alert (ustr ''smtp'') \<notin> set (events (replay (mail_down (ustr ''B'')) True two_steps)) \<and>
   last (events (replay (mail_down (ustr ''B'')) True two_steps)) =
     WriteReport (results (replay (mail_down (ustr ''B'')) True two_steps)) \<and>
   thrown_in (wait_fails (ustr ''A'')) two_steps 0 = Some (ustr ''closed'') \<and>
   length (results (replay (wait_fails (ustr ''A'')) True two_steps)) = 1 \<and>
   pass (results (replay (wait_fails (ustr ''A'')) True two_steps) ! 0) \<and>
   alerts (events (replay (wait_fails (ustr ''A'')) True two_steps)) =
     [crash_alert (ustr ''closed'')] \<and>
   visited (events (replay (wait_fails (ustr ''A'')) True two_steps)) =
     map target_href (take 1 two_steps)"
proof -
  have k0: "0 < length two_steps" and k1: "1 < length two_steps"
    by (simp_all add: two_steps_def)
  have rtA: "\<forall>j<1. runs_through (timeout_at 1 (ustr ''A'')) two_steps j"
    and rtB: "\<forall>j<1. runs_through (timeout_at 1 (ustr ''B'')) two_steps j"
    by (simp_all add: sample_throws)
  have rt0: "\<forall>j<0. runs_through (mail_down (ustr ''B'')) two_steps j"
    "\<forall>j<0. runs_through (wait_fails (ustr ''A'')) two_steps j"
    by simp_all
  have navA: "visit (timeout_at 1 (ustr ''A'')) 1 = Inl (ustr ''timeout'') \<and> 1 = (1::nat) \<or>
      (\<exists>pg. visit (timeout_at 1 (ustr ''A'')) 1 = Inr pg) \<and>
      thrown_in (timeout_at 1 (ustr ''A'')) two_steps 1 = Some (ustr ''timeout'') \<and> 1 = Suc 1"
    and navB: "visit (timeout_at 1 (ustr ''B'')) 1 = Inl (ustr ''timeout'') \<and> 1 = (1::nat) \<or>
      (\<exists>pg. visit (timeout_at 1 (ustr ''B'')) 1 = Inr pg) \<and>
      thrown_in (timeout_at 1 (ustr ''B'')) two_steps 1 = Some (ustr ''timeout'') \<and> 1 = Suc 1"
    by (simp_all add: sample_visits)
  have lateM: "visit (mail_down (ustr ''B'')) 0 = Inl (ustr ''smtp'') \<and> 1 = (0::nat) \<or>
      (\<exists>pg. visit (mail_down (ustr ''B'')) 0 = Inr pg) \<and>
      thrown_in (mail_down (ustr ''B'')) two_steps 0 = Some (ustr ''smtp'') \<and> 1 = Suc 0"
    by (simp add: sample_visits sample_alert_throws)
  have lateW: "visit (wait_fails (ustr ''A'')) 0 = Inl (ustr ''closed'') \<and> 1 = (0::nat) \<or>
      (\<exists>pg. visit (wait_fails (ustr ''A'')) 0 = Inr pg) \<and>
      thrown_in (wait_fails (ustr ''A'')) two_steps 0 = Some (ustr ''closed'') \<and> 1 = Suc 0"
    by (simp add: sample_visits sample_throws)
  note a = crash_path [where w = "timeout_at 1 (ustr ''A'')" and h = True and all = two_steps
      and k = 1 and n = 1 and err = "ustr ''timeout''", OF k1 rtA navA]
  note b = crash_path [where w = "timeout_at 1 (ustr ''B'')" and h = True and all = two_steps
      and k = 1 and n = 1 and err = "ustr ''timeout''", OF k1 rtB navB]
  note c = crash_path [where w = "mail_down (ustr ''B'')" and h = True and all = two_steps
      and k = 0 and n = 1 and err = "ustr ''smtp''", OF k0 rt0(1) lateM]
  note d = crash_path [where w = "wait_fails (ustr ''A'')" and h = True and all = two_steps
      and k = 0 and n = 1 and err = "ustr ''closed''", OF k0 rt0(2) lateW]
  from a run_timeout(1) have
    "length (results (replay (timeout_at 1 (ustr ''A'')) True two_steps)) = 1"
    "alerts (events (replay (timeout_at 1 (ustr ''A'')) True two_steps)) =
       [crash_alert (ustr ''timeout'')]"
    "last (events (replay (timeout_at 1 (ustr ''A'')) True two_steps)) =
       WriteReport (results (replay (timeout_at 1 (ustr ''A'')) True two_steps))"
    by (simp_all add: sample_visits)
  moreover from b run_timeout(2) have
    "crash_alert (ustr ''timeout'') \<notin>
       set (events (replay (timeout_at 1 (ustr ''B'')) True two_steps))"
    by auto
  moreover from c run_late(1) have
    "length (results (replay (mail_down (ustr ''B'')) True two_steps)) = 1"
    "crash_alert (ustr ''smtp'') \<notin> set (events (replay (mail_down (ustr ''B'')) True two_steps))"
    "last (events (replay (mail_down (ustr ''B'')) True two_steps)) =
       WriteReport (results (replay (mail_down (ustr ''B'')) True two_steps))"
    by auto
  moreover from d run_late(2) have
    "length (results (replay (wait_fails (ustr ''A'')) True two_steps)) = 1"
    "alerts (events (replay (wait_fails (ustr ''A'')) True two_steps)) =
       [crash_alert (ustr ''closed'')]"
    "visited (events (replay (wait_fails (ustr ''A'')) True two_steps)) =
       map target_href (take 1 two_steps)"
    by simp_all
  ultimately show ?thesis
    using k1 run_timeout run_late sample_alert_throws
    by (simp add: sample_visits sample_throws)
qed

text \<open>
  Three crashes at step 1 of 1. The alert of the mismatch throws, or the closing wait
  does: the result of step 1 is already in. The visit times out and the crash alert
  throws: no report is written.
\<close>

theorem crash_after_result_or_without_report:
  "LogCrash (ustr ''smtp'') \<in>
     set (events (replay (mail_down (ustr ''B'')) True [recorded (ustr ''u1'') (Some (ustr ''A''))])) \<and>
   length (results (replay (mail_down (ustr ''B'')) True
     [recorded (ustr ''u1'') (Some (ustr ''A''))])) = 1 \<and>
   LogCrash (ustr ''closed'') \<in>
     set (events (replay (wait_fails (ustr ''A'')) True [recorded (ustr ''u1'') (Some (ustr ''A''))])) \<and>
   length (results (replay (wait_fails (ustr ''A'')) True
     [recorded (ustr ''u1'') (Some (ustr ''A''))])) = 1 \<and>
   events (replay ((timeout_at 0 [])\<lparr>crash_mail_err := Some (ustr ''smtp'')\<rparr>) True
      [recorded (ustr ''u1'') (Some (ustr ''A''))]) =
   [Launch True, Goto (ustr ''u1''), LogCrash (ustr ''timeout''), crash_alert (ustr ''timeout''),
    Close, Uncaught (ustr ''smtp'')]"
  by (simp add: sample_defs)

end
